theory Spec2Isabelle
  imports Main "HOL-Library.AList" "HOL-Library.Char_ord" "HOL-Library.List_Lexorder"
begin

section \<open>Python values and dictionaries\<close>

text \<open>
  The detections of \<^verbatim>\<open>drone_detector.py\<close> are Python dictionaries with string keys.
  The consumer loop reads the keys \<^verbatim>\<open>id\<close> and \<^verbatim>\<open>timestamp\<close>, writes
  \<^verbatim>\<open>first_seen\<close>, \<^verbatim>\<open>last_seen\<close>, \<^verbatim>\<open>duration\<close> and \<^verbatim>\<open>detection_count\<close>, and passes
  every other entry along untouched. The values modelled are strings (identifiers, ISO
  timestamps, types), integers (Wi-Fi signal power, channel, the counters) and nested
  dictionaries (the location); on these Python's equality is structural equality.
  Floating-point payloads (the power and frequency of an SDR detection, the coordinates)
  are not among them: the consumer never inspects a payload, it stores it and hands it on.
  A dictionary is an association list in insertion order: a lookup is \<open>map_of\<close>, an
  assignment \<^verbatim>\<open>d[k] = v\<close> is \<open>AList.update\<close>, which replaces the value of a key that
  is present and appends a key that is new, as Python does.
\<close>

datatype pyval = PStr string | PInt int | PDict "(string \<times> pyval) list"

type_synonym pydict = "(string \<times> pyval) list"

datatype pyerror = KeyError string | TypeError

definition getitem :: "pydict \<Rightarrow> string \<Rightarrow> pyerror + pyval" where
  \<comment> \<open>\<^verbatim>\<open>d[k]\<close>: raises KeyError when the key is missing\<close>
  "getitem d k = (case map_of d k of None \<Rightarrow> Inl (KeyError k) | Some v \<Rightarrow> Inr v)"

definition setitem :: "pydict \<Rightarrow> string \<Rightarrow> pyval \<Rightarrow> pydict" where
  \<comment> \<open>\<^verbatim>\<open>d[k] = v\<close>\<close>
  "setitem d k v = AList.update k v d"

fun hashable :: "pyval \<Rightarrow> bool" where
  \<comment> \<open>a dict is unhashable: using it as a dictionary key raises TypeError\<close>
  "hashable (PDict _) = False"
| "hashable _ = True"

fun add_one :: "pyval \<Rightarrow> pyerror + pyval" where
  \<comment> \<open>\<^verbatim>\<open>v + 1\<close>: defined on integers, TypeError on a string or a dict\<close>
  "add_one (PInt n) = Inr (PInt (n + 1))"
| "add_one _ = Inl TypeError"

definition py_last :: "nat \<Rightarrow> 'a list \<Rightarrow> 'a list" where
  \<comment> \<open>the slice \<^verbatim>\<open>xs[-n:]\<close> for \<open>n > 0\<close>: the last \<open>n\<close> elements, the whole list when
      it is shorter\<close>
  "py_last n xs = drop (length xs - n) xs"

section \<open>The detector state\<close>

text \<open>
  \<^verbatim>\<open>queue.Queue(maxsize=0)\<close> of the standard library: a FIFO whose size is unbounded when
  \<open>maxsize \<le> 0\<close>. \<^verbatim>\<open>put(item)\<close> (blocking, no timeout) waits while the queue is full and
  never raises; \<^verbatim>\<open>get(timeout=1)\<close> raises \<^verbatim>\<open>queue.Empty\<close> when nothing arrives in time.
  In \<open>put\<close> the result \<open>None\<close> stands for a caller that blocks, in \<open>get\<close> for
  \<^verbatim>\<open>queue.Empty\<close>.
\<close>

record pyqueue =
  maxsize :: int
  items :: "pydict list"

definition Queue :: "int \<Rightarrow> pyqueue" where
  "Queue m = \<lparr>maxsize = m, items = []\<rparr>"

definition full :: "pyqueue \<Rightarrow> bool" where
  "full q = (0 < maxsize q \<and> maxsize q \<le> int (length (items q)))"

definition put :: "pyqueue \<Rightarrow> pydict \<Rightarrow> pyqueue option" where
  "put q x = (if full q then None else Some (q\<lparr>items := items q @ [x]\<rparr>))"

definition get :: "pyqueue \<Rightarrow> (pydict \<times> pyqueue) option" where
  "get q = (case items q of [] \<Rightarrow> None | x # xs \<Rightarrow> Some (x, q\<lparr>items := xs\<rparr>))"

text \<open>
  The detector object. \<^verbatim>\<open>detected_drones\<close> and \<^verbatim>\<open>detection_history\<close> hold references to
  detection dictionaries, and the dictionary stored for a new drone (line 265) is the very
  object appended to the history (line 269), which later detections of that drone mutate
  (lines 257 to 259). So the dictionaries live in a store, \<open>objects\<close>, and a reference is
  an index into it. A detection waiting in the queue is referenced by nobody else (each
  producer builds a fresh dictionary and forgets it after \<^verbatim>\<open>put\<close>), so the queue holds
  values, and an object enters the store when the consumer first stores a reference to it.
  Clock readings (\<^verbatim>\<open>datetime.now()\<close>) are natural numbers supplied by the caller.
\<close>

record stats =
  total_detections :: int
  unique_drones :: "pyval set"
  last_update :: nat

record detector =
  objects :: "pydict list"
  detected_drones :: "(pyval \<times> nat) list"
  detection_history :: "nat list"
  running :: bool
  detection_queue :: pyqueue
  stats :: stats

definition init :: "nat \<Rightarrow> detector" where
  \<comment> \<open>\<^verbatim>\<open>DroneDetector.__init__\<close>, lines 46 to 60\<close>
  "init now =
     \<lparr>objects = [], detected_drones = [], detection_history = [], running = False,
      detection_queue = Queue 0,
      stats = \<lparr>total_detections = 0, unique_drones = {}, last_update = now\<rparr>\<rparr>"

section \<open>The consumer loop\<close>

definition increment :: "detector \<Rightarrow> nat \<Rightarrow> string \<Rightarrow> pyerror + detector" where
  \<comment> \<open>\<^verbatim>\<open>track[k] += 1\<close> on the stored object \<open>t\<close>: read, add, write back\<close>
  "increment s t k =
     (case getitem (objects s ! t) k of
        Inl e \<Rightarrow> Inl e
      | Inr v \<Rightarrow>
          (case add_one v of
             Inl e \<Rightarrow> Inl e
           | Inr v' \<Rightarrow> Inr (s\<lparr>objects := (objects s)[t := setitem (objects s ! t) k v']\<rparr>)))"

definition append_history :: "nat list \<Rightarrow> nat \<Rightarrow> nat list" where
  \<comment> \<open>lines 269, 273 and 274: append, then keep the newest 1000\<close>
  "append_history h a =
     (let h' = h @ [a] in if length h' > 1000 then py_last 1000 h' else h')"

definition record_detection :: "detector \<Rightarrow> nat \<Rightarrow> detector" where
  \<comment> \<open>lines 269 to 274, for the detection stored as object \<open>a\<close>\<close>
  "record_detection s a =
     s\<lparr>detection_history := append_history (detection_history s) a,
       stats := (stats s)\<lparr>total_detections := total_detections (stats s) + 1\<rparr>\<rparr>"

definition apply_detection :: "detector \<Rightarrow> pydict \<Rightarrow> pyerror option \<times> detector" where
  \<comment> \<open>lines 252 to 276, the body of the \<^verbatim>\<open>try\<close>: the exception raised, if any, and the
      state at that point\<close>
  "apply_detection s detection =
     (case getitem detection ''id'' of
        Inl e \<Rightarrow> (Some e, s)
      | Inr drone_id \<Rightarrow>
          if \<not> hashable drone_id then (Some TypeError, s)
          else
            (case map_of (detected_drones s) drone_id of
               Some t \<Rightarrow>
                 (case getitem detection ''timestamp'' of
                    Inl e \<Rightarrow> (Some e, s)
                  | Inr ts \<Rightarrow>
                      let s1 = s\<lparr>objects :=
                                   (objects s)[t := setitem (objects s ! t) ''last_seen'' ts]\<rparr>
                      in (case increment s1 t ''duration'' of
                            Inl e \<Rightarrow> (Some e, s1)
                          | Inr s2 \<Rightarrow>
                              (case increment s2 t ''detection_count'' of
                                 Inl e \<Rightarrow> (Some e, s2)
                               | Inr s3 \<Rightarrow>
                                   (None, record_detection
                                            (s3\<lparr>objects := objects s3 @ [detection]\<rparr>)
                                            (length (objects s3))))))
             | None \<Rightarrow>
                 (case getitem detection ''timestamp'' of
                    Inl e \<Rightarrow> (Some e, s)
                  | Inr ts \<Rightarrow>
                      let d1 = setitem detection ''first_seen'' ts;
                          d2 = setitem d1 ''duration'' (PInt 1);
                          d3 = setitem d2 ''detection_count'' (PInt 1);
                          a = length (objects s);
                          s1 = s\<lparr>objects := objects s @ [d3],
                                 detected_drones := AList.update drone_id a (detected_drones s),
                                 stats := (stats s)\<lparr>unique_drones :=
                                            insert drone_id (unique_drones (stats s))\<rparr>\<rparr>
                      in (None, record_detection s1 a))))"

definition loop_iteration :: "detector \<Rightarrow> detector" where
  \<comment> \<open>lines 249 to 281: one pass through the body of \<^verbatim>\<open>while self.running\<close>. An empty
      queue raises \<^verbatim>\<open>queue.Empty\<close> and the loop continues; any other exception is printed
      and the loop continues with the state the \<^verbatim>\<open>try\<close> body left.\<close>
  "loop_iteration s =
     (case get (detection_queue s) of
        None \<Rightarrow> s
      | Some (detection, q) \<Rightarrow> snd (apply_detection (s\<lparr>detection_queue := q\<rparr>) detection))"

fun process_detections :: "nat \<Rightarrow> detector \<Rightarrow> detector" where
  \<comment> \<open>the loop of lines 248 to 281, observed for a number of iterations\<close>
  "process_detections 0 s = s"
| "process_detections (Suc n) s =
     (if running s then process_detections n (loop_iteration s) else s)"

section \<open>Producers, the main loop and the exports\<close>

definition enqueue :: "detector \<Rightarrow> pydict \<Rightarrow> detector option" where
  \<comment> \<open>lines 140 and 214, \<^verbatim>\<open>self.detection_queue.put(detection)\<close>; \<open>None\<close> when the
      producer blocks\<close>
  "enqueue s detection =
     (case put (detection_queue s) detection of
        None \<Rightarrow> None
      | Some q \<Rightarrow> Some (s\<lparr>detection_queue := q\<rparr>))"

definition start :: "detector \<Rightarrow> detector" where
  \<comment> \<open>line 567; the threads started after it are the steps below\<close>
  "start s = s\<lparr>running := True\<rparr>"

definition main_loop_iteration :: "detector \<Rightarrow> nat \<Rightarrow> detector" where
  \<comment> \<open>lines 605 to 617: the statistics tick. \<^verbatim>\<open>generate_map\<close> and the prints only read.\<close>
  "main_loop_iteration s now = s\<lparr>stats := (stats s)\<lparr>last_update := now\<rparr>\<rparr>"

definition report :: "detector \<Rightarrow> nat \<times> int \<times> nat" where
  \<comment> \<open>the three figures printed at lines 614 to 616: active drones, total detections,
      unique drones\<close>
  "report s =
     (length (detected_drones s), total_detections (stats s), card (unique_drones (stats s)))"

definition stop :: "detector \<Rightarrow> detector" where
  \<comment> \<open>lines 623 to 633; \<^verbatim>\<open>save_data\<close> and the final map only read\<close>
  "stop s = s\<lparr>running := False\<rparr>"

text \<open>
  The threads interleave; each of the following steps is one of them running one of its
  operations on the shared detector.
\<close>

datatype action = Start | Put pydict | Consume | Tick nat | Stop

fun step :: "detector \<Rightarrow> action \<Rightarrow> detector" where
  "step s Start = start s"
| "step s (Put detection) = (case enqueue s detection of None \<Rightarrow> s | Some s' \<Rightarrow> s')"
| "step s Consume = (if running s then loop_iteration s else s)"
| "step s (Tick now) = (if running s then main_loop_iteration s now else s)"
| "step s Stop = stop s"

definition exec :: "detector \<Rightarrow> action list \<Rightarrow> detector" where
  "exec s acts = foldl step s acts"

definition apply_all :: "detector \<Rightarrow> pydict list \<Rightarrow> detector" where
  \<comment> \<open>the consumer applying detections one after the other, exceptions caught as in
      \<open>loop_iteration\<close>\<close>
  "apply_all s ds = foldl (\<lambda>s' d. snd (apply_detection s' d)) s ds"

text \<open>
  The two exports. \<^verbatim>\<open>api_export\<close> builds a dictionary with the registry, the last 100
  history entries, \<^verbatim>\<open>self.stats\<close> as it is and the time (lines 540 to 545), and returns
  \<^verbatim>\<open>jsonify(export_data)\<close> (line 547). \<^verbatim>\<open>save_data\<close> builds a dictionary with the
  registry, the whole history, the statistics with the set turned into a list and the
  datetime into a string, and \<^verbatim>\<open>system_info\<close> in place of \<^verbatim>\<open>export_time\<close> (lines 637 to
  649; its \<^verbatim>\<open>runtime\<close>, the difference of two clock readings taken one after the other,
  is left out), and writes it with \<^verbatim>\<open>json.dump(..., default=str)\<close>. Serialisation
  follows every reference, so the documents hold the dictionaries themselves.

  Flask's JSON provider encodes dictionaries, lists, strings, numbers and datetimes and
  raises TypeError on an object of any other type; \<^verbatim>\<open>json.dump\<close> with \<^verbatim>\<open>default=str\<close>
  encodes the same and turns any other object into a string. The Python type of each
  entry of the statistics decides which of them applies.
\<close>

datatype pytype = TStr | TInt | TList | TDict | TSet | TDatetime

fun flask_encodes :: "pytype \<Rightarrow> bool" where
  "flask_encodes TSet = False"
| "flask_encodes _ = True"

definition stats_types :: "(string \<times> pytype) list" where
  \<comment> \<open>\<^verbatim>\<open>self.stats\<close> as lines 56 to 60 build it and lines 266, 270 and 606 keep it\<close>
  "stats_types =
     [(''total_detections'', TInt), (''unique_drones'', TSet), (''last_update'', TDatetime)]"

record export_document =
  exp_detected_drones :: "(pyval \<times> pydict) list"
  exp_detection_history :: "pydict list"
  exp_stats :: stats
  export_time :: nat


definition deref :: "detector \<Rightarrow> nat \<Rightarrow> pydict" where
  "deref s a = objects s ! a"

definition export_data :: "detector \<Rightarrow> nat \<Rightarrow> export_document" where
  \<comment> \<open>lines 540 to 545, the dictionary \<^verbatim>\<open>export_data\<close>\<close>
  "export_data s now =
     \<lparr>exp_detected_drones = map (\<lambda>(k, t). (k, deref s t)) (detected_drones s),
      exp_detection_history = map (deref s) (py_last 100 (detection_history s)),
      exp_stats = stats s,
      export_time = now\<rparr>"

definition jsonify :: "(string \<times> pytype) list \<Rightarrow> 'a \<Rightarrow> pyerror + 'a" where
  \<comment> \<open>Flask's \<^verbatim>\<open>jsonify\<close> on a document whose statistics have the given types\<close>
  "jsonify types doc =
     (if list_all (\<lambda>(k, ty). flask_encodes ty) types then Inr doc else Inl TypeError)"

definition api_export :: "detector \<Rightarrow> nat \<Rightarrow> pyerror + export_document" where
  \<comment> \<open>lines 538 to 547, the handler of \<^verbatim>\<open>/api/export\<close>\<close>
  "api_export s now = jsonify stats_types (export_data s now)"


section \<open>Well-formed states and detections\<close>

definition counters :: "pydict \<Rightarrow> (int \<times> int) option" where
  \<comment> \<open>the two counters of a track, when both are present and integers\<close>
  "counters d =
     (case (map_of d ''duration'', map_of d ''detection_count'') of
        (Some (PInt m), Some (PInt n)) \<Rightarrow> Some (m, n)
      | _ \<Rightarrow> None)"

definition track_ok :: "pydict \<Rightarrow> bool" where
  "track_ok d = (case counters d of Some (m, n) \<Rightarrow> m = n \<and> 1 \<le> n | None \<Rightarrow> False)"

definition wf :: "detector \<Rightarrow> bool" where
  \<comment> \<open>what holds of every state the program reaches\<close>
  "wf s \<longleftrightarrow>
     distinct (map fst (detected_drones s))
     \<and> set (map fst (detected_drones s)) = unique_drones (stats s)
     \<and> (\<forall>(k, t) \<in> set (detected_drones s). t < length (objects s) \<and> track_ok (objects s ! t))
     \<and> (\<forall>a \<in> set (detection_history s). a < length (objects s))
     \<and> maxsize (detection_queue s) = 0"

definition well_formed :: "pydict \<Rightarrow> bool" where
  \<comment> \<open>a detection as the producers build them: an identifier that can be a key, and a
      timestamp\<close>
  "well_formed d \<longleftrightarrow>
     (case map_of d ''id'' of Some k \<Rightarrow> hashable k | None \<Rightarrow> False)
     \<and> map_of d ''timestamp'' \<noteq> None"

definition bookkeeping :: "string set" where
  \<comment> \<open>the keys the consumer writes, lines 257 to 264\<close>
  "bookkeeping = {''first_seen'', ''last_seen'', ''duration'', ''detection_count''}"

definition payload :: "pydict \<Rightarrow> pydict" where
  \<comment> \<open>the entries of a dictionary under every other key, in order\<close>
  "payload d = filter (\<lambda>(k, v). k \<notin> bookkeeping) d"

section \<open>The detections a run has consumed\<close>

definition consumed_step :: "detector \<Rightarrow> action \<Rightarrow> pydict list" where
  \<comment> \<open>the detection a step takes off the queue and hands to the \<^verbatim>\<open>try\<close> body, if any\<close>
  "consumed_step s a =
     (case a of
        Consume \<Rightarrow>
          (if running s
           then (case items (detection_queue s) of [] \<Rightarrow> [] | d # _ \<Rightarrow> [d])
           else [])
      | _ \<Rightarrow> [])"

fun consumed :: "detector \<Rightarrow> action list \<Rightarrow> pydict list" where
  "consumed s [] = []"
| "consumed s (a # acts) = consumed_step s a @ consumed (step s a) acts"

definition detections_of :: "pyval \<Rightarrow> pydict list \<Rightarrow> nat" where
  \<comment> \<open>how many of the detections are well-formed and carry the identifier \<open>k\<close>\<close>
  "detections_of k ds = length (filter (\<lambda>d. well_formed d \<and> map_of d ''id'' = Some k) ds)"

definition reframe :: "detector \<Rightarrow> bool \<Rightarrow> pyqueue \<Rightarrow> nat \<Rightarrow> detector" where
  \<comment> \<open>the parts of the state that the \<^verbatim>\<open>try\<close> body neither reads nor writes, replaced\<close>
  "reframe s r q u =
     s\<lparr>running := r, detection_queue := q, stats := (stats s)\<lparr>last_update := u\<rparr>\<rparr>"

definition counted :: "detector \<Rightarrow> pydict list \<Rightarrow> bool" where
  \<comment> \<open>the tracks are different objects, and both counters of each track are the number of
      accepted detections of its emitter among \<open>ds\<close>\<close>
  "counted s ds \<longleftrightarrow>
     distinct (map snd (detected_drones s))
     \<and> (\<forall>(k, t) \<in> set (detected_drones s).
           counters (objects s ! t) = Some (int (detections_of k ds), int (detections_of k ds)))
     \<and> (\<forall>k. map_of (detected_drones s) k = None \<longrightarrow> detections_of k ds = 0)"

section \<open>Sample detections\<close>

definition rf_event :: "nat \<Rightarrow> pydict" where
  \<comment> \<open>the string entries of detections as \<^verbatim>\<open>sdr_callback\<close> builds them (lines 130 to
      138), with pairwise different identifiers\<close>
  "rf_event i =
     [(''id'', PStr (''RF_2400_1'' @ replicate i CHR ''0'')), (''type'', PStr ''RF_SIGNAL''),
      (''timestamp'', PStr ''2024-01-01T00:00:00''), (''source'', PStr ''SDR'')]"

definition wifi_event :: "string \<Rightarrow> int \<Rightarrow> string \<Rightarrow> pydict" where
  \<comment> \<open>a detection as \<^verbatim>\<open>start_wifi_detection\<close> builds it (lines 202 to 212), its
      location left out\<close>
  "wifi_event bssid6 dbm ts =
     [(''id'', PStr (''WIFI_'' @ bssid6)), (''type'', PStr ''DJI''), (''ssid'', PStr ''Mavic''),
      (''bssid'', PStr (''903ae6'' @ bssid6)), (''power'', PInt dbm), (''timestamp'', PStr ts),
      (''source'', PStr ''Wi-Fi''), (''channel'', PInt 6)]"

definition rf_scenario :: "int \<Rightarrow> string \<Rightarrow> pydict" where
  \<comment> \<open>the detection of the specification's scenario, emitter \<^verbatim>\<open>RF_2400_1000\<close>, with an
      integer power\<close>
  "rf_scenario dbm ts =
     [(''id'', PStr ''RF_2400_1000''), (''type'', PStr ''RF_SIGNAL''), (''power'', PInt dbm),
      (''timestamp'', PStr ts), (''source'', PStr ''SDR'')]"

lemmas run_defs = exec_def init_def Queue_def start_def stop_def main_loop_iteration_def
  enqueue_def put_def full_def loop_iteration_def get_def apply_detection_def getitem_def
  setitem_def increment_def record_detection_def append_history_def py_last_def Let_def
  apply_all_def

section \<open>The history log\<close>

lemma append_history_eq: "append_history h a = py_last 1000 (h @ [a])"
  by (simp add: append_history_def py_last_def Let_def)

lemma py_last_py_last: "py_last n (py_last n xs @ ys) = py_last n (xs @ ys)"
proof (cases "length xs \<le> n")
  case True
  then show ?thesis by (simp add: py_last_def)
next
  case False
  then have "length xs + length ys - (length xs - n + n) + (length xs - n) = length xs + length ys - n"
    by arith
  then show ?thesis by (simp add: py_last_def)
qed


lemma foldl_append_history: "length h \<le> 1000 \<Longrightarrow> foldl append_history h as = py_last 1000 (h @ as)"
proof (induction as arbitrary: h)
  case Nil then show ?case by (simp add: py_last_def)
next
  case (Cons a as)
  have "length (append_history h a) \<le> 1000" by (simp add: append_history_eq py_last_def)
  then show ?case using Cons.IH[of "append_history h a"] by (simp add: append_history_eq py_last_py_last)
qed

lemma apply_new:
  assumes "map_of d ''id'' = Some k" "hashable k" "map_of (detected_drones s) k = None"
    "map_of d ''timestamp'' = Some ts"
  shows "apply_detection s d =
    (None, s\<lparr>objects := objects s @ [setitem (setitem (setitem d ''first_seen'' ts) ''duration'' (PInt 1)) ''detection_count'' (PInt 1)],
            detected_drones := AList.update k (length (objects s)) (detected_drones s),
            detection_history := append_history (detection_history s) (length (objects s)),
            stats := (stats s)\<lparr>unique_drones := insert k (unique_drones (stats s)),
                               total_detections := total_detections (stats s) + 1\<rparr>\<rparr>)"
  using assms by (simp add: apply_detection_def getitem_def record_detection_def Let_def)

lemma apply_repeat:
  assumes "map_of d ''id'' = Some k" "hashable k" "map_of (detected_drones s) k = Some t"
    "map_of d ''timestamp'' = Some ts" "t < length (objects s)"
    "counters (objects s ! t) = Some (m, n)"
  shows "apply_detection s d =
    (None, s\<lparr>objects := (objects s)[t := setitem (setitem (setitem (objects s ! t) ''last_seen'' ts) ''duration'' (PInt (m + 1))) ''detection_count'' (PInt (n + 1))] @ [d],
            detection_history := append_history (detection_history s) (length (objects s)),
            stats := (stats s)\<lparr>total_detections := total_detections (stats s) + 1\<rparr>\<rparr>)"
  using assms
  by (auto simp add: apply_detection_def getitem_def record_detection_def Let_def increment_def
      setitem_def counters_def update_conv' split: option.splits pyval.splits)

section \<open>One detection applied\<close>

lemma update_absent: "map_of al k = None \<Longrightarrow> AList.update k v al = al @ [(k, v)]"
  by (induction al) (auto split: if_splits)

lemma in_append_history: "x \<in> set (append_history h a) \<Longrightarrow> x = a \<or> x \<in> set h"
  by (auto simp add: append_history_eq py_last_def dest: in_set_dropD)

lemma apply_malformed:
  assumes "\<not> well_formed d"
  shows "\<exists>e. apply_detection s d = (Some e, s)"
  using assms
  by (auto simp add: well_formed_def apply_detection_def getitem_def split: option.splits)

lemma counters_new:
  "counters (setitem (setitem (setitem d ''first_seen'' ts) ''duration'' (PInt 1)) ''detection_count'' (PInt 1)) = Some (1, 1)"
  by (simp add: counters_def setitem_def update_conv')

lemma counters_repeat:
  "counters (setitem (setitem (setitem d ''last_seen'' ts) ''duration'' (PInt m)) ''detection_count'' (PInt n)) = Some (m, n)"
  by (simp add: counters_def setitem_def update_conv')

lemma track_ok_counters: "track_ok d \<Longrightarrow> \<exists>n. counters d = Some (n, n) \<and> 1 \<le> n"
  by (auto simp add: track_ok_def split: option.splits)

lemma wf_apply_new:
  assumes "wf s" "map_of d ''id'' = Some k" "hashable k" "map_of (detected_drones s) k = None"
    "map_of d ''timestamp'' = Some ts"
  shows "wf (snd (apply_detection s d))"
proof -
  have k: "k \<notin> fst ` set (detected_drones s)"
    using assms(4) by (simp add: map_of_eq_None_iff)
  show ?thesis
    using assms(1) k
    unfolding apply_new[OF assms(2-5)] 
    by (auto simp add: wf_def update_absent[OF assms(4)] nth_append track_ok_def counters_new
        dest!: in_append_history)
qed

lemma wf_apply_repeat:
  assumes "wf s" "map_of d ''id'' = Some k" "hashable k" "map_of (detected_drones s) k = Some t"
    "map_of d ''timestamp'' = Some ts"
  shows "wf (snd (apply_detection s d))"
proof -
  have kt: "(k, t) \<in> set (detected_drones s)" using assms(4) by (rule map_of_SomeD)
  then have t: "t < length (objects s)" and ok: "track_ok (objects s ! t)"
    using assms(1) by (auto simp add: wf_def)
  from track_ok_counters[OF ok] obtain n where n: "counters (objects s ! t) = Some (n, n)" "1 \<le> n"
    by blast
  show ?thesis
    using assms(1) t n(2)
    unfolding apply_repeat[OF assms(2-5) t n(1)]
    by (auto simp add: wf_def nth_append nth_list_update track_ok_def counters_repeat
        dest!: in_append_history)
qed

lemma wf_apply: "wf s \<Longrightarrow> wf (snd (apply_detection s d))"
proof (cases "well_formed d")
  case False
  assume "wf s"
  with apply_malformed[OF False, of s] show ?thesis by auto
next
  case True
  assume s: "wf s"
  from True obtain k ts where d: "map_of d ''id'' = Some k" "hashable k" "map_of d ''timestamp'' = Some ts"
    by (auto simp add: well_formed_def split: option.splits)
  show ?thesis
  proof (cases "map_of (detected_drones s) k")
    case None
    then show ?thesis using wf_apply_new[OF s d(1,2) _ d(3)] by simp
  next
    case (Some t)
    then show ?thesis using wf_apply_repeat[OF s d(1,2) _ d(3)] by simp
  qed
qed

section \<open>Every reachable state is well-formed\<close>

lemma wf_init: "wf (init now)"
  by (simp add: wf_def init_def Queue_def)

lemma wf_queue_items: "wf (s\<lparr>detection_queue := (detection_queue s)\<lparr>items := xs\<rparr>\<rparr>) = wf s"
  by (simp add: wf_def)

lemma wf_loop_iteration: "wf s \<Longrightarrow> wf (loop_iteration s)"
  by (auto simp add: loop_iteration_def get_def wf_queue_items wf_apply split: list.splits)

lemma wf_step: "wf s \<Longrightarrow> wf (step s a)"
proof (cases a)
  case Consume
  assume "wf s" then show ?thesis using Consume by (simp add: wf_loop_iteration)
next
  case (Put d)
  assume "wf s" then show ?thesis using Put
    by (auto simp add: enqueue_def put_def wf_def split: option.splits if_splits)
qed (simp_all add: wf_def start_def stop_def main_loop_iteration_def)

lemma wf_exec_from: "wf s \<Longrightarrow> wf (exec s acts)"
  unfolding exec_def by (induction acts arbitrary: s) (simp_all add: wf_step)

lemma wf_exec: "wf (exec (init now) acts)"
  by (rule wf_exec_from[OF wf_init])

lemma wf_apply_all: "wf s \<Longrightarrow> wf (apply_all s ds)"
  unfolding apply_all_def by (induction ds arbitrary: s) (simp_all add: wf_apply)

section \<open>The loop and the interleaved steps\<close>

lemma apply_detection_frame:
  "running (snd (apply_detection s d)) = running s"
  "detection_queue (snd (apply_detection s d)) = detection_queue s"
  by (auto simp add: apply_detection_def increment_def record_detection_def Let_def
      split: sum.splits option.splits)

lemma apply_detection_queue:
  "snd (apply_detection (s\<lparr>detection_queue := q\<rparr>) d) = (snd (apply_detection s d))\<lparr>detection_queue := q\<rparr>"
  by (auto simp add: apply_detection_def increment_def record_detection_def Let_def
      split: sum.splits option.splits)

lemma keys_apply_detection:
  "fst ` set (detected_drones s) \<subseteq> fst ` set (detected_drones (snd (apply_detection s d)))"
  by (auto simp add: apply_detection_def increment_def record_detection_def Let_def dom_update
      split: sum.splits option.splits)

lemma keys_step: "fst ` set (detected_drones s) \<subseteq> fst ` set (detected_drones (step s a))"
proof (cases a)
  case Consume
  then show ?thesis
    using keys_apply_detection
    by (auto simp add: loop_iteration_def get_def apply_detection_queue split: list.splits)
qed (auto simp add: start_def stop_def main_loop_iteration_def enqueue_def put_def split: option.splits if_splits)

lemma exec_puts:
  "maxsize (detection_queue s) = 0 \<Longrightarrow>
   exec s (map Put ds) = s\<lparr>detection_queue := (detection_queue s)\<lparr>items := items (detection_queue s) @ ds\<rparr>\<rparr>"
  unfolding exec_def
  by (induction ds arbitrary: s) (simp_all add: enqueue_def put_def full_def)

lemma apply_all_queue:
  "apply_all (s\<lparr>detection_queue := q\<rparr>) ds = (apply_all s ds)\<lparr>detection_queue := q\<rparr>"
  unfolding apply_all_def
  by (induction ds arbitrary: s) (simp_all add: apply_detection_queue)

lemma apply_all_Cons: "apply_all s (d # ds) = apply_all (snd (apply_detection s d)) ds"
  by (simp add: apply_all_def)

lemma apply_all_frame:
  "running (apply_all s ds) = running s"
  "detection_queue (apply_all s ds) = detection_queue s"
  unfolding apply_all_def
  by (induction ds arbitrary: s) (simp_all add: apply_detection_frame)

lemma exec_Cons: "exec s (a # acts) = exec (step s a) acts"
  by (simp add: exec_def)

lemma exec_append: "exec s (xs @ ys) = exec (exec s xs) ys"
  by (simp add: exec_def)

lemma exec_consumes:
  "running s \<Longrightarrow> items (detection_queue s) = ds @ rest \<Longrightarrow>
   exec s (replicate (length ds) Consume)
     = (apply_all s ds)\<lparr>detection_queue := (detection_queue s)\<lparr>items := rest\<rparr>\<rparr>"
proof (induction ds arbitrary: s)
  case Nil
  then show ?case by (simp add: exec_def apply_all_def)
next
  case (Cons d ds)
  let ?s' = "loop_iteration s"
  have s': "?s' = (snd (apply_detection s d))\<lparr>detection_queue := (detection_queue s)\<lparr>items := ds @ rest\<rparr>\<rparr>"
    using Cons.prems(2) by (simp add: loop_iteration_def get_def apply_detection_queue)
  have "running ?s'" "items (detection_queue ?s') = ds @ rest"
    using Cons.prems(1) by (simp_all add: s' apply_detection_frame)
  from Cons.IH[OF this] have "exec ?s' (replicate (length ds) Consume)
      = (apply_all ?s' ds)\<lparr>detection_queue := (detection_queue ?s')\<lparr>items := rest\<rparr>\<rparr>" .
  also have "\<dots> = (apply_all s (d # ds))\<lparr>detection_queue := (detection_queue s)\<lparr>items := rest\<rparr>\<rparr>"
    by (simp add: s' apply_all_queue apply_all_Cons)
  finally show ?case using Cons.prems(1) by (simp add: exec_Cons)
qed

lemma exec_not_running: "\<not> running s \<Longrightarrow> exec s (replicate n Consume) = s"
  by (induction n) (simp_all add: exec_def)

lemma process_detections_exec: "process_detections n s = exec s (replicate n Consume)"
  by (induction n arbitrary: s) (simp_all add: exec_Cons exec_not_running, simp add: exec_def)

section \<open>Well-formed detections applied in sequence\<close>

lemma apply_well_formed:
  assumes "wf s" "well_formed d" "map_of d ''id'' = Some k"
  shows "fst (apply_detection s d) = None"
    and "length (objects (snd (apply_detection s d))) = Suc (length (objects s))"
    and "detection_history (snd (apply_detection s d))
           = append_history (detection_history s) (length (objects s))"
    and "total_detections (stats (snd (apply_detection s d))) = total_detections (stats s) + 1"
    and "fst ` set (detected_drones (snd (apply_detection s d)))
           = insert k (fst ` set (detected_drones s))"
proof -
  from assms(2,3) obtain ts where d: "hashable k" "map_of d ''timestamp'' = Some ts"
    by (auto simp add: well_formed_def)
  have "fst (apply_detection s d) = None
    \<and> length (objects (snd (apply_detection s d))) = Suc (length (objects s))
    \<and> detection_history (snd (apply_detection s d))
           = append_history (detection_history s) (length (objects s))
    \<and> total_detections (stats (snd (apply_detection s d))) = total_detections (stats s) + 1
    \<and> fst ` set (detected_drones (snd (apply_detection s d)))
           = insert k (fst ` set (detected_drones s))"
  proof (cases "map_of (detected_drones s) k")
    case None
    show ?thesis unfolding apply_new[OF assms(3) d(1) None d(2)] by (simp add: dom_update)
  next
    case (Some t)
    then have kt: "(k, t) \<in> set (detected_drones s)" by (rule map_of_SomeD)
    then have t: "t < length (objects s)" and ok: "track_ok (objects s ! t)"
      using assms(1) by (auto simp add: wf_def)
    from track_ok_counters[OF ok] obtain n where n: "counters (objects s ! t) = Some (n, n)"
      by blast
    have "k \<in> fst ` set (detected_drones s)" using kt by force
    then show ?thesis unfolding apply_repeat[OF assms(3) d(1) Some d(2) t n] by (simp add: insert_absorb)
  qed
  then show "fst (apply_detection s d) = None"
    and "length (objects (snd (apply_detection s d))) = Suc (length (objects s))"
    and "detection_history (snd (apply_detection s d))
           = append_history (detection_history s) (length (objects s))"
    and "total_detections (stats (snd (apply_detection s d))) = total_detections (stats s) + 1"
    and "fst ` set (detected_drones (snd (apply_detection s d)))
           = insert k (fst ` set (detected_drones s))"
    by simp_all
qed

lemma well_formed_id: "well_formed d \<Longrightarrow> \<exists>k. map_of d ''id'' = Some k"
  by (auto simp add: well_formed_def split: option.splits)

lemma apply_all_well_formed:
  assumes "wf s" "\<forall>d \<in> set ds. well_formed d"
  shows "length (objects (apply_all s ds)) = length (objects s) + length ds"
    and "detection_history (apply_all s ds)
           = foldl append_history (detection_history s)
               [length (objects s) ..< length (objects s) + length ds]"
    and "total_detections (stats (apply_all s ds)) = total_detections (stats s) + int (length ds)"
    and "fst ` set (detected_drones (apply_all s ds))
           = fst ` set (detected_drones s) \<union> {k. \<exists>d \<in> set ds. map_of d ''id'' = Some k}"
  using assms
proof (induction ds arbitrary: s)
  case Nil
  { case 1 show ?case by (simp add: apply_all_def) }
  { case 2 show ?case by (simp add: apply_all_def) }
  { case 3 show ?case by (simp add: apply_all_def) }
  { case 4 show ?case by (simp add: apply_all_def) }
next
  case (Cons d ds)
  { case 1
    obtain k where k: "map_of d ''id'' = Some k" using well_formed_id 1(2) by auto
    have d: "well_formed d" using 1(2) by simp
    show ?case using Cons(1)[OF wf_apply[OF 1(1)], of d] 1(2)
      by (simp add: apply_all_Cons apply_well_formed[OF 1(1) d k]) }
  { case 2
    obtain k where k: "map_of d ''id'' = Some k" using well_formed_id 2(2) by auto
    have d: "well_formed d" using 2(2) by simp
    show ?case using Cons(2)[OF wf_apply[OF 2(1)], of d] 2(2)
      by (simp add: apply_all_Cons apply_well_formed[OF 2(1) d k] upt_conv_Cons del: upt_Suc) }
  { case 3
    obtain k where k: "map_of d ''id'' = Some k" using well_formed_id 3(2) by auto
    have d: "well_formed d" using 3(2) by simp
    show ?case using Cons(3)[OF wf_apply[OF 3(1)], of d] 3(2)
      by (simp add: apply_all_Cons apply_well_formed[OF 3(1) d k]) }
  { case 4
    obtain k where k: "map_of d ''id'' = Some k" using well_formed_id 4(2) by auto
    have d: "well_formed d" using 4(2) by simp
    show ?case using Cons(4)[OF wf_apply[OF 4(1)], of d] 4(2)
      by (auto simp add: apply_all_Cons apply_well_formed[OF 4(1) d k] k) }
qed

section \<open>What the consumer leaves of a detection\<close>

lemma payload_setitem: "k \<in> bookkeeping \<Longrightarrow> payload (setitem d k v) = payload d"
  unfolding payload_def setitem_def by (induction d) auto

lemma bookkeeping_simps:
  "''first_seen'' \<in> bookkeeping" "''last_seen'' \<in> bookkeeping"
  "''duration'' \<in> bookkeeping" "''detection_count'' \<in> bookkeeping"
  by (simp_all add: bookkeeping_def)

lemma map_of_payload: "k \<notin> bookkeeping \<Longrightarrow> map_of (payload d) k = map_of d k"
  unfolding payload_def by (induction d) auto

lemma apply_payload:
  assumes "wf s" "well_formed d"
  shows "map payload (objects (snd (apply_detection s d))) = map payload (objects s) @ [payload d]"
proof -
  from assms(2) obtain k ts where d: "map_of d ''id'' = Some k" "hashable k" "map_of d ''timestamp'' = Some ts"
    by (auto simp add: well_formed_def split: option.splits)
  show ?thesis
  proof (cases "map_of (detected_drones s) k")
    case None
    show ?thesis unfolding apply_new[OF d(1,2) None d(3)]
      by (simp add: payload_setitem bookkeeping_simps)
  next
    case (Some t)
    then have kt: "(k, t) \<in> set (detected_drones s)" by (rule map_of_SomeD)
    then have t: "t < length (objects s)" and ok: "track_ok (objects s ! t)"
      using assms(1) by (auto simp add: wf_def)
    from track_ok_counters[OF ok] obtain n where n: "counters (objects s ! t) = Some (n, n)"
      by blast
    show ?thesis unfolding apply_repeat[OF d(1,2) Some d(3) t n]
      by (simp add: payload_setitem bookkeeping_simps map_update list_update_same_conv t)
  qed
qed

lemma apply_all_payload:
  "wf s \<Longrightarrow> \<forall>d \<in> set ds. well_formed d \<Longrightarrow>
   map payload (objects (apply_all s ds)) = map payload (objects s) @ map payload ds"
proof (induction ds arbitrary: s)
  case Nil
  then show ?case by (simp add: apply_all_def)
next
  case (Cons d ds)
  show ?case using Cons.IH[OF wf_apply[OF Cons.prems(1)], of d] Cons.prems
    by (simp add: apply_all_Cons apply_payload)
qed

lemma py_last_upt: "n \<le> m \<Longrightarrow> py_last n [0..<m] = [m - n..<m]"
  by (simp add: py_last_def drop_upt)

section \<open>The claims\<close>

text \<open>
  C6. After 1001 detections have been appended to the history, which keeps 1000 entries,
  the history holds exactly 1000 entries: the first one appended (object 0) is gone, and
  the entries are those of the second to the 1001st detection, in the order they were
  appended. Each accepted detection becomes one stored object, numbered in order of
  arrival, whose payload is the payload the producer sent.
\<close>

theorem history_keeps_newest_1000:
  assumes "length ds = 1001" and "\<forall>d \<in> set ds. well_formed d"
  shows "detection_history (apply_all (init now) ds) = [1..<1001]
    \<and> length (detection_history (apply_all (init now) ds)) = 1000
    \<and> 0 \<notin> set (detection_history (apply_all (init now) ds))
    \<and> map (\<lambda>a. payload (deref (apply_all (init now) ds) a))
          (detection_history (apply_all (init now) ds)) = map payload (tl ds)"
proof -
  let ?s = "apply_all (init now) ds"
  have h: "detection_history ?s = [1..<1001]"
    using apply_all_well_formed(2)[OF wf_init assms(2), of now] assms(1)
    by (simp add: init_def foldl_append_history py_last_upt)
  have len: "length (objects ?s) = 1001"
    using apply_all_well_formed(1)[OF wf_init assms(2), of now] assms(1) by (simp add: init_def)
  have p: "map payload (objects ?s) = map payload ds"
    using apply_all_payload[OF wf_init assms(2), of now] by (simp add: init_def)
  have "map (\<lambda>a. payload (deref ?s a)) [1..<1001] = map payload (tl ds)"
  proof (rule nth_equalityI)
    show "length (map (\<lambda>a. payload (deref ?s a)) [1..<1001]) = length (map payload (tl ds))"
      using assms(1) by simp
  next
    fix i assume "i < length (map (\<lambda>a. payload (deref ?s a)) [1..<1001])"
    then have i: "i < 1000" by simp
    have "payload (objects ?s ! Suc i) = map payload (objects ?s) ! Suc i"
      using i len by simp
    also have "\<dots> = payload (ds ! Suc i)" using i assms(1) by (simp add: p)
    finally show "map (\<lambda>a. payload (deref ?s a)) [1..<1001] ! i = map payload (tl ds) ! i"
      using i assms(1) by (simp add: deref_def nth_tl)
  qed
  with h show ?thesis by simp
qed

theorem history_keeps_newest_1000_witness:
  "length (map rf_event [0..<1001]) = 1001 \<and> list_all well_formed (map rf_event [0..<1001])
   \<and> detection_history (apply_all (init 0) (map rf_event [0..<1001])) = [1..<1001]
   \<and> length (detection_history (apply_all (init 0) (map rf_event [0..<1001]))) = 1000
   \<and> 0 \<notin> set (detection_history (apply_all (init 0) (map rf_event [0..<1001])))"
proof -
  have a: "length (map rf_event [0..<1001]) = 1001" by simp
  have b: "\<forall>d \<in> set (map rf_event [0..<1001]). well_formed d"
    by (simp add: well_formed_def rf_event_def)
  have c: "list_all well_formed (map rf_event [0..<1001])"
    using b by (simp only: list_all_iff)
  show ?thesis using a c history_keeps_newest_1000[OF a b, of 0] by blast
qed

lemma keys_exec: "fst ` set (detected_drones s) \<subseteq> fst ` set (detected_drones (exec s acts))"
proof (induction acts arbitrary: s)
  case Nil
  then show ?case by (simp add: exec_def)
next
  case (Cons a acts)
  show ?case
    unfolding exec_Cons by (rule subset_trans[OF keys_step[of s a] Cons.IH[of "step s a"]])
qed


text \<open>
  C10. In every state the program reaches, the registry has as many tracks as
  \<^verbatim>\<open>unique_drones\<close> has members (the first and the third figure of the report printed
  by the main loop are equal): the keys of the registry are exactly the members of
  \<^verbatim>\<open>unique_drones\<close>, and that set only grows as the program runs on.
\<close>

theorem active_equals_unique:
  "fst (report (exec (init now) acts)) = snd (snd (report (exec (init now) acts)))
   \<and> length (detected_drones (exec (init now) acts))
       = card (unique_drones (stats (exec (init now) acts)))
   \<and> fst ` set (detected_drones (exec (init now) acts))
       = unique_drones (stats (exec (init now) acts))
   \<and> unique_drones (stats (exec (init now) acts))
       \<subseteq> unique_drones (stats (exec (init now) (acts @ later)))"
proof -
  let ?s = "exec (init now) acts"
  have w: "wf ?s" by (rule wf_exec)
  then have d: "distinct (map fst (detected_drones ?s))"
    and k: "set (map fst (detected_drones ?s)) = unique_drones (stats ?s)"
    by (simp_all add: wf_def)
  have "card (unique_drones (stats ?s)) = length (map fst (detected_drones ?s))"
    using distinct_card[OF d] k by simp
  then have l: "length (detected_drones ?s) = card (unique_drones (stats ?s))" by simp
  have w': "wf (exec (init now) (acts @ later))" by (rule wf_exec)
  have "fst ` set (detected_drones ?s) \<subseteq> fst ` set (detected_drones (exec ?s later))"
    by (rule keys_exec)
  then have "unique_drones (stats ?s) \<subseteq> unique_drones (stats (exec (init now) (acts @ later)))"
    using k w' by (simp add: wf_def exec_append)
  with l k show ?thesis by (simp add: report_def)
qed

lemma run_events:
  "exec (init now) (Start # map Put ds @ replicate (length ds) Consume)
     = apply_all (start (init now)) ds"
proof -
  define s1 where "s1 = start (init now)"
  define q1 where "q1 = detection_queue s1"
  define s2 where "s2 = s1\<lparr>detection_queue := q1\<lparr>items := ds\<rparr>\<rparr>"
  have q1: "maxsize q1 = 0" "items q1 = []" and r: "running s1"
    by (simp_all add: q1_def s1_def start_def init_def Queue_def)
  have a: "exec s1 (map Put ds) = s2"
    using exec_puts[of s1 ds] q1 by (simp add: s2_def q1_def)
  have "exec s2 (replicate (length ds) Consume)
      = (apply_all s2 ds)\<lparr>detection_queue := (detection_queue s2)\<lparr>items := []\<rparr>\<rparr>"
    by (rule exec_consumes) (simp_all add: s2_def r)
  also have "(detection_queue s2)\<lparr>items := []\<rparr> = q1"
    using q1 by (simp add: s2_def)
  also have "(apply_all s2 ds)\<lparr>detection_queue := q1\<rparr> = (apply_all s1 ds)\<lparr>detection_queue := q1\<rparr>"
    by (simp add: s2_def apply_all_queue)
  also have "\<dots> = apply_all s1 ds"
    using apply_all_frame(2)[of s1 ds] by (simp add: q1_def)
  finally have b: "exec s2 (replicate (length ds) Consume) = apply_all s1 ds" .
  have "exec (init now) (Start # map Put ds @ replicate (length ds) Consume)
      = exec (exec s1 (map Put ds)) (replicate (length ds) Consume)"
    by (simp add: exec_Cons exec_append s1_def)
  also have "\<dots> = apply_all s1 ds" by (simp only: a b)
  finally show ?thesis by (simp only: s1_def)
qed

lemma wf_start_init: "wf (start (init now))"
  by (simp add: wf_def start_def init_def Queue_def)

lemma rf_event_well_formed: "well_formed (rf_event i)"
  by (simp add: well_formed_def rf_event_def)

lemma rf_event_ids:
  "{k. \<exists>d \<in> set (map rf_event [0..<n]). map_of d ''id'' = Some k}
     = (\<lambda>i. PStr (''RF_2400_1'' @ replicate i CHR ''0'')) ` {0..<n}"
  by (auto simp add: rf_event_def)

lemma rf_ids_inj: "inj (\<lambda>i. PStr (''RF_2400_1'' @ replicate i CHR ''0''))"
proof (rule injI)
  fix i j assume "PStr (''RF_2400_1'' @ replicate i CHR ''0'') = PStr (''RF_2400_1'' @ replicate j CHR ''0'')"
  then have "length (replicate i CHR ''0'') = length (replicate j CHR ''0'')" by simp
  then show "i = j" by simp
qed

lemma registry_after_rf_events:
  "length (detected_drones (apply_all (start (init now)) (map rf_event [0..<n]))) = n"
proof -
  let ?s = "apply_all (start (init now)) (map rf_event [0..<n])"
  have wfd: "\<forall>d \<in> set (map rf_event [0..<n]). well_formed d"
    by (simp add: rf_event_well_formed)
  have "wf ?s" by (rule wf_apply_all[OF wf_start_init])
  then have "distinct (map fst (detected_drones ?s))" by (simp add: wf_def)
  then have "length (detected_drones ?s) = card (fst ` set (detected_drones ?s))"
    using distinct_card[of "map fst (detected_drones ?s)"] by simp
  also have "fst ` set (detected_drones ?s) = (\<lambda>i. PStr (''RF_2400_1'' @ replicate i CHR ''0'')) ` {0..<n}"
    using apply_all_well_formed(4)[OF wf_start_init wfd, of now]
    by (simp only: rf_event_ids) (simp add: start_def init_def)
  also have "card \<dots> = n"
    using card_image[OF inj_on_subset[OF rf_ids_inj subset_UNIV], of "{0..<n}"] by simp
  finally show ?thesis .
qed

text \<open>
  C2. The ingestion queue is created without a capacity (line 53, \<^verbatim>\<open>queue.Queue()\<close>), so
  it is never full: in every state the program reaches, \<^verbatim>\<open>put\<close> (lines 140 and 214)
  succeeds at once, without blocking and without a Backpressure result, and leaves the
  detection at the end of the queue.
\<close>

theorem enqueue_never_blocks:
  "enqueue (exec (init now) acts) d
     = Some ((exec (init now) acts)\<lparr>detection_queue :=
         (detection_queue (exec (init now) acts))\<lparr>items :=
            items (detection_queue (exec (init now) acts)) @ [d]\<rparr>\<rparr>)"
  using wf_exec[of now acts] by (simp add: wf_def enqueue_def put_def full_def)

text \<open>
  C2 as the specification words it fails: the queue of the initial state holds as many
  detections as its capacity setting says (none) and \<^verbatim>\<open>put\<close> succeeds all the same, and
  no number bounds the length the queue can reach.
\<close>

theorem queue_is_unbounded:
  "length (items (detection_queue (init 0))) = nat (maxsize (detection_queue (init 0)))
   \<and> enqueue (init 0) (rf_event 0) \<noteq> None
   \<and> \<not> (\<exists>C. \<forall>acts. length (items (detection_queue (exec (init 0) acts))) \<le> C)"
proof -
  have "\<not> (\<exists>C. \<forall>acts. length (items (detection_queue (exec (init 0) acts))) \<le> C)"
  proof
    assume "\<exists>C. \<forall>acts. length (items (detection_queue (exec (init 0) acts))) \<le> C"
    then obtain C where C: "\<forall>acts. length (items (detection_queue (exec (init 0) acts))) \<le> C" ..
    have m: "maxsize (detection_queue (init 0)) = 0" by (simp add: init_def Queue_def)
    have "length (items (detection_queue (exec (init 0) (map Put (replicate (Suc C) (rf_event 0)))))) \<le> C"
      using C by blast
    then have "length (items (detection_queue (init 0)) @ replicate (Suc C) (rf_event 0)) \<le> C"
      by (simp only: exec_puts[OF m]) simp
    then show False by simp
  qed
  then show ?thesis by (simp add: init_def Queue_def enqueue_def put_def full_def)
qed

text \<open>
  C3. The program has no idle sweep and no lifecycle states: the periodic pass of the main
  loop (lines 603 to 617) leaves the registry and the stored dictionaries as they are, and
  no step of any thread removes a key from the registry, whatever the state and however
  long the run.
\<close>

theorem tracks_are_never_removed:
  "detected_drones (main_loop_iteration s now) = detected_drones s
   \<and> objects (main_loop_iteration s now) = objects s
   \<and> fst ` set (detected_drones s) \<subseteq> fst ` set (detected_drones (exec s acts))"
  using keys_exec[of s acts] by (simp add: main_loop_iteration_def)

lemma malformed_not_well_formed:
  "map_of d ''id'' = None \<or> map_of d ''timestamp'' = None \<Longrightarrow> \<not> well_formed d"
  by (auto simp add: well_formed_def)

lemma loop_iteration_malformed:
  assumes "\<not> well_formed d" "items (detection_queue s) = d # rest"
  shows "loop_iteration s = s\<lparr>detection_queue := (detection_queue s)\<lparr>items := rest\<rparr>\<rparr>"
proof -
  obtain e where "apply_detection s d = (Some e, s)"
    using apply_malformed[OF assms(1)] by blast
  then have "snd (apply_detection s d) = s" by simp
  then show ?thesis
    using assms(2) by (simp add: loop_iteration_def get_def apply_detection_queue)
qed

text \<open>
  C8. A detection that lacks its \<^verbatim>\<open>id\<close> or its \<^verbatim>\<open>timestamp\<close> raises an exception inside
  the \<^verbatim>\<open>try\<close> before anything has been written: the registry, the stored dictionaries,
  the history and the statistics are exactly as they were. The handler at line 280 prints
  the error, and the loop goes on with the detections that follow.
\<close>

theorem malformed_detection_is_skipped:
  assumes "map_of d ''id'' = None \<or> map_of d ''timestamp'' = None"
    and "items (detection_queue s) = d # rest"
    and "running s"
  shows "(\<exists>e. apply_detection s d = (Some e, s))
    \<and> loop_iteration s = s\<lparr>detection_queue := (detection_queue s)\<lparr>items := rest\<rparr>\<rparr>
    \<and> process_detections (Suc n) s
        = process_detections n (s\<lparr>detection_queue := (detection_queue s)\<lparr>items := rest\<rparr>\<rparr>)"
proof -
  have "\<exists>e. apply_detection s d = (Some e, s)"
    by (rule apply_malformed[OF malformed_not_well_formed[OF assms(1)]])
  moreover have "loop_iteration s = s\<lparr>detection_queue := (detection_queue s)\<lparr>items := rest\<rparr>\<rparr>"
    by (rule loop_iteration_malformed[OF malformed_not_well_formed[OF assms(1)] assms(2)])
  ultimately show ?thesis using assms(3) by simp
qed

theorem malformed_detection_is_skipped_witness:
  "map_of [(''type'', PStr ''DJI''), (''power'', PInt (-40))] ''id'' = None
   \<and> process_detections 2
        (exec (init 0) [Start, Put [(''type'', PStr ''DJI''), (''power'', PInt (-40))],
                        Put (rf_scenario (-45) ''2024-01-01T00:00:01'')])
      = process_detections 1
        (exec (init 0) [Start, Put (rf_scenario (-45) ''2024-01-01T00:00:01'')])"
proof -
  let ?bad = "[(''type'', PStr ''DJI''), (''power'', PInt (-40))]"
  let ?s = "exec (init 0) [Start, Put ?bad, Put (rf_scenario (-45) ''2024-01-01T00:00:01'')]"
  have a: "map_of ?bad ''id'' = None \<or> map_of ?bad ''timestamp'' = None" by simp
  have b: "items (detection_queue ?s) = ?bad # [rf_scenario (-45) ''2024-01-01T00:00:01'']"
    by (simp add: run_defs)
  have c: "running ?s" by (simp add: run_defs)
  have d: "?s\<lparr>detection_queue := (detection_queue ?s)\<lparr>items := [rf_scenario (-45) ''2024-01-01T00:00:01'']\<rparr>\<rparr>
         = exec (init 0) [Start, Put (rf_scenario (-45) ''2024-01-01T00:00:01'')]"
    by (simp add: run_defs)
  have "process_detections (Suc 1) ?s
      = process_detections 1 (?s\<lparr>detection_queue :=
          (detection_queue ?s)\<lparr>items := [rf_scenario (-45) ''2024-01-01T00:00:01'']\<rparr>\<rparr>)"
    using malformed_detection_is_skipped[OF a b c, of 1] by blast
  then have "process_detections 2 ?s
      = process_detections 1 (exec (init 0) [Start, Put (rf_scenario (-45) ''2024-01-01T00:00:01'')])"
    by (simp only: d Suc_1)
  moreover have "map_of ?bad ''id'' = None" by simp
  ultimately show ?thesis by (rule conjI[rotated])
qed

text \<open>
  C8 as the specification words it fails in one part: nothing counts the rejection. After a
  detection without \<^verbatim>\<open>id\<close> and \<^verbatim>\<open>timestamp\<close> has been enqueued and consumed, the whole
  detector is in the state in which the detection never arrived.
\<close>

theorem rejection_is_not_counted:
  "exec (init 0) [Start, Put [(''type'', PStr ''DJI''), (''power'', PInt (-40))], Consume]
     = exec (init 0) [Start]"
  by (simp add: run_defs)

text \<open>
  C4. The first detection of a drone creates a track with \<^verbatim>\<open>first_seen\<close> equal to the
  detection's timestamp and \<^verbatim>\<open>detection_count\<close> equal to 1, but the branch of lines 262
  to 266 never writes \<^verbatim>\<open>last_seen\<close>, which only the branch for a known drone sets
  (line 257): the new track has no such entry.
\<close>

theorem new_track_lacks_last_seen:
  "detected_drones (apply_all (init 0) [wifi_event ''a1b2c3'' (-45) ''2024-01-01T00:00:03''])
     = [(PStr ''WIFI_a1b2c3'', 0)]
   \<and> map_of (objects (apply_all (init 0) [wifi_event ''a1b2c3'' (-45) ''2024-01-01T00:00:03'']) ! 0)
        ''first_seen'' = Some (PStr ''2024-01-01T00:00:03'')
   \<and> map_of (objects (apply_all (init 0) [wifi_event ''a1b2c3'' (-45) ''2024-01-01T00:00:03'']) ! 0)
        ''detection_count'' = Some (PInt 1)
   \<and> map_of (objects (apply_all (init 0) [wifi_event ''a1b2c3'' (-45) ''2024-01-01T00:00:03'']) ! 0)
        ''last_seen'' = None"
  by (simp add: run_defs wifi_event_def)

section \<open>The track of one emitter\<close>

lemma map_of_setitem: "map_of (setitem d k v) k' = (if k' = k then Some v else map_of d k')"
  by (simp add: setitem_def update_conv')

lemma apply_new_track:
  assumes "map_of d ''id'' = Some k" "hashable k" "map_of (detected_drones s) k = None"
    "map_of d ''timestamp'' = Some ts"
  shows "detected_drones (snd (apply_detection s d)) = detected_drones s @ [(k, length (objects s))]"
    and "length (objects (snd (apply_detection s d))) = Suc (length (objects s))"
    and "objects (snd (apply_detection s d)) ! length (objects s)
           = setitem (setitem (setitem d ''first_seen'' ts) ''duration'' (PInt 1))
               ''detection_count'' (PInt 1)"
  unfolding apply_new[OF assms] by (simp_all add: update_absent[OF assms(3)])

lemma apply_repeat_track:
  assumes "map_of d ''id'' = Some k" "hashable k" "map_of (detected_drones s) k = Some a"
    "map_of d ''timestamp'' = Some ts" "a < length (objects s)"
    "counters (objects s ! a) = Some (m, n)"
  shows "detected_drones (snd (apply_detection s d)) = detected_drones s"
    and "a < length (objects (snd (apply_detection s d)))"
    and "objects (snd (apply_detection s d)) ! a
           = setitem (setitem (setitem (objects s ! a) ''last_seen'' ts) ''duration'' (PInt (m + 1)))
               ''detection_count'' (PInt (n + 1))"
  unfolding apply_repeat[OF assms] using assms(5) by (simp_all add: nth_append)

lemma repeats_track:
  assumes "map_of (detected_drones s) k = Some a" "a < length (objects s)"
    "counters (objects s ! a) = Some (m, n)" "hashable k"
    "\<forall>d \<in> set ds. map_of d ''id'' = Some k"
    "map (\<lambda>d. map_of d ''timestamp'') ds = map Some ts"
  shows "detected_drones (apply_all s ds) = detected_drones s
    \<and> a < length (objects (apply_all s ds))
    \<and> counters (objects (apply_all s ds) ! a) = Some (m + int (length ds), n + int (length ds))
    \<and> map_of (objects (apply_all s ds) ! a) ''first_seen'' = map_of (objects s ! a) ''first_seen''
    \<and> map_of (objects (apply_all s ds) ! a) ''last_seen''
        = (if ds = [] then map_of (objects s ! a) ''last_seen'' else Some (last ts))
    \<and> payload (objects (apply_all s ds) ! a) = payload (objects s ! a)"
  using assms
proof (induction ds arbitrary: s m n ts)
  case Nil
  then show ?case by (simp add: apply_all_def)
next
  case (Cons d ds)
  from Cons.prems(6) obtain t ts' where ts: "ts = t # ts'" "map_of d ''timestamp'' = Some t"
    "map (\<lambda>d. map_of d ''timestamp'') ds = map Some ts'"
    by (cases ts) auto
  have d: "map_of d ''id'' = Some k" using Cons.prems(5) by simp
  let ?s1 = "snd (apply_detection s d)"
  note step = apply_repeat_track[OF d Cons.prems(4) Cons.prems(1) ts(2) Cons.prems(2) Cons.prems(3)]
  have c1: "counters (objects ?s1 ! a) = Some (m + 1, n + 1)"
    by (simp add: step(3) counters_repeat)
  have r1: "map_of (detected_drones ?s1) k = Some a" by (simp add: step(1) Cons.prems(1))
  have ds: "\<forall>d \<in> set ds. map_of d ''id'' = Some k" using Cons.prems(5) by simp
  note ih = Cons.IH[OF r1 step(2) c1 Cons.prems(4) ds ts(3)]
  have len: "(ts' = []) = (ds = [])" using arg_cong[OF ts(3), of length] by (cases ds; cases ts') simp_all
  show ?case
    using ih len
    by (simp add: apply_all_Cons step(1) step(3) map_of_setitem payload_setitem bookkeeping_simps ts(1))
qed

lemma counters_lookup:
  "counters d = Some (m, n) \<Longrightarrow>
   map_of d ''duration'' = Some (PInt m) \<and> map_of d ''detection_count'' = Some (PInt n)"
  by (auto simp add: counters_def split: option.splits pyval.splits)

lemma one_track_sequence:
  assumes "map_of (detected_drones s) k = None" "hashable k"
    "map_of d ''id'' = Some k" "map_of d ''timestamp'' = Some t"
    "\<forall>d \<in> set ds. map_of d ''id'' = Some k"
    "map (\<lambda>d. map_of d ''timestamp'') ds = map Some ts"
  shows "detected_drones (apply_all s (d # ds)) = detected_drones s @ [(k, length (objects s))]
    \<and> length (objects s) < length (objects (apply_all s (d # ds)))
    \<and> counters (objects (apply_all s (d # ds)) ! length (objects s))
        = Some (1 + int (length ds), 1 + int (length ds))
    \<and> map_of (objects (apply_all s (d # ds)) ! length (objects s)) ''first_seen'' = Some t
    \<and> map_of (objects (apply_all s (d # ds)) ! length (objects s)) ''last_seen''
        = (if ds = [] then map_of d ''last_seen'' else Some (last ts))
    \<and> payload (objects (apply_all s (d # ds)) ! length (objects s)) = payload d"
proof -
  let ?s1 = "snd (apply_detection s d)"
  let ?a = "length (objects s)"
  note new = apply_new_track[OF assms(3) assms(2) assms(1) assms(4)]
  have r: "map_of (detected_drones ?s1) k = Some ?a"
    using assms(1) by (simp add: new(1) map_add_def)
  have a: "?a < length (objects ?s1)" by (simp add: new(2))
  have c: "counters (objects ?s1 ! ?a) = Some (1, 1)" by (simp add: new(3) counters_new)
  from repeats_track[OF r a c assms(2) assms(5) assms(6)]
  show ?thesis
    by (simp add: apply_all_Cons new(1) new(3) map_of_setitem payload_setitem bookkeeping_simps)
qed

section \<open>Timestamps in order\<close>

lemma sorted_hd_Min: "sorted ts \<Longrightarrow> ts \<noteq> [] \<Longrightarrow> hd ts = Min (set ts)"
  by (cases ts) (auto intro!: Min_eqI[symmetric])

lemma sorted_le_last: "sorted ts \<Longrightarrow> x \<in> set ts \<Longrightarrow> x \<le> last ts"
  by (induction ts) (auto split: if_splits)

lemma sorted_last_Max: "sorted ts \<Longrightarrow> ts \<noteq> [] \<Longrightarrow> last ts = Max (set ts)"
  by (auto intro!: Max_eqI[symmetric] sorted_le_last)

lemma filter_absent: "map_of al k = None \<Longrightarrow> filter (\<lambda>p. fst p = k) al = []"
  by (auto simp add: filter_empty_conv map_of_eq_None_iff)

text \<open>
  C5. After N detections of one emitter that the registry did not know, applied one after
  the other, that emitter has exactly one track; its \<^verbatim>\<open>detection_count\<close> is N, its
  \<^verbatim>\<open>first_seen\<close> is the timestamp of the first detection applied and, from the second
  detection on, its \<^verbatim>\<open>last_seen\<close> is the timestamp of the last detection applied. When
  the detections arrive in the order of their timestamps these are the smallest and the
  largest timestamp, and \<^verbatim>\<open>first_seen\<close> is not after \<^verbatim>\<open>last_seen\<close>. Timestamps are the
  ISO strings the producers write, compared as Python compares strings.
\<close>

theorem repeated_detections_of_one_emitter:
  assumes "map_of (detected_drones s) k = None" and "hashable k" and "ds \<noteq> []"
    and "\<forall>d \<in> set ds. map_of d ''id'' = Some k"
    and "map (\<lambda>d. map_of d ''timestamp'') ds = map (\<lambda>t. Some (PStr t)) ts"
  shows "length (filter (\<lambda>p. fst p = k) (detected_drones (apply_all s ds))) = 1
    \<and> map_of (detected_drones (apply_all s ds)) k = Some (length (objects s))
    \<and> map_of (objects (apply_all s ds) ! length (objects s)) ''detection_count''
        = Some (PInt (int (length ds)))
    \<and> map_of (objects (apply_all s ds) ! length (objects s)) ''first_seen''
        = Some (PStr (hd ts))
    \<and> (2 \<le> length ds \<longrightarrow>
         map_of (objects (apply_all s ds) ! length (objects s)) ''last_seen''
           = Some (PStr (last ts)))
    \<and> (sorted ts \<longrightarrow> hd ts = Min (set ts) \<and> last ts = Max (set ts) \<and> hd ts \<le> last ts)"
proof -
  from assms(3) obtain d ds' where ds: "ds = d # ds'" by (cases ds) auto
  with assms(5) obtain t ts' where ts: "ts = t # ts'" "map_of d ''timestamp'' = Some (PStr t)"
    "map (\<lambda>d. map_of d ''timestamp'') ds' = map Some (map PStr ts')"
    by (cases ts) auto
  have d: "map_of d ''id'' = Some k" and ds': "\<forall>d \<in> set ds'. map_of d ''id'' = Some k"
    using assms(4) ds by simp_all
  note seq = one_track_sequence[OF assms(1) assms(2) d ts(2) ds' ts(3)]
  have len: "(ts' = []) = (ds' = [])"
    using arg_cong[OF ts(3), of length] by (cases ds'; cases ts') simp_all
  have reg: "detected_drones (apply_all s ds) = detected_drones s @ [(k, length (objects s))]"
    using seq ds by simp
  have 1: "length (filter (\<lambda>p. fst p = k) (detected_drones (apply_all s ds))) = 1"
    by (simp add: reg filter_absent[OF assms(1)])
  have 2: "map_of (detected_drones (apply_all s ds)) k = Some (length (objects s))"
    using assms(1) by (simp add: reg map_add_def)
  have 3: "map_of (objects (apply_all s ds) ! length (objects s)) ''detection_count''
        = Some (PInt (int (length ds)))"
    using counters_lookup[of "objects (apply_all s ds) ! length (objects s)"
        "1 + int (length ds')" "1 + int (length ds')"] seq ds by simp
  have 4: "map_of (objects (apply_all s ds) ! length (objects s)) ''first_seen''
        = Some (PStr (hd ts))"
    using seq ds ts(1) by simp
  have 5: "2 \<le> length ds \<longrightarrow>
         map_of (objects (apply_all s ds) ! length (objects s)) ''last_seen''
           = Some (PStr (last ts))"
  proof
    assume "2 \<le> length ds"
    then have ne: "ds' \<noteq> []" "ts' \<noteq> []" using ds len by auto
    then show "map_of (objects (apply_all s ds) ! length (objects s)) ''last_seen''
           = Some (PStr (last ts))"
      using seq ds ts(1) by (simp add: last_map)
  qed
  have 6: "sorted ts \<longrightarrow> hd ts = Min (set ts) \<and> last ts = Max (set ts) \<and> hd ts \<le> last ts"
    using sorted_hd_Min[of ts] sorted_last_Max[of ts] sorted_le_last[of ts "hd ts"] ts(1)
    by auto
  from 1 2 3 4 5 6 show ?thesis by blast
qed


theorem repeated_detections_of_one_emitter_witness:
  "map_of (detected_drones (init 0)) (PStr ''WIFI_a1b2c3'') = None
   \<and> map_of (objects (apply_all (init 0)
          [wifi_event ''a1b2c3'' (-45) ''2024-01-01T00:00:01'',
           wifi_event ''a1b2c3'' (-47) ''2024-01-01T00:00:02'',
           wifi_event ''a1b2c3'' (-50) ''2024-01-01T00:00:03'']) ! 0) ''detection_count''
        = Some (PInt 3)
   \<and> map_of (objects (apply_all (init 0)
          [wifi_event ''a1b2c3'' (-45) ''2024-01-01T00:00:01'',
           wifi_event ''a1b2c3'' (-47) ''2024-01-01T00:00:02'',
           wifi_event ''a1b2c3'' (-50) ''2024-01-01T00:00:03'']) ! 0) ''first_seen''
        = Some (PStr ''2024-01-01T00:00:01'')
   \<and> map_of (objects (apply_all (init 0)
          [wifi_event ''a1b2c3'' (-45) ''2024-01-01T00:00:01'',
           wifi_event ''a1b2c3'' (-47) ''2024-01-01T00:00:02'',
           wifi_event ''a1b2c3'' (-50) ''2024-01-01T00:00:03'']) ! 0) ''last_seen''
        = Some (PStr ''2024-01-01T00:00:03'')
   \<and> sorted [''2024-01-01T00:00:01'', ''2024-01-01T00:00:02'', ''2024-01-01T00:00:03'']
   \<and> ''2024-01-01T00:00:03''
        = Max (set [''2024-01-01T00:00:01'', ''2024-01-01T00:00:02'', ''2024-01-01T00:00:03''])"
proof -
  let ?ds = "[wifi_event ''a1b2c3'' (-45) ''2024-01-01T00:00:01'',
           wifi_event ''a1b2c3'' (-47) ''2024-01-01T00:00:02'',
           wifi_event ''a1b2c3'' (-50) ''2024-01-01T00:00:03'']"
  let ?ts = "[''2024-01-01T00:00:01'', ''2024-01-01T00:00:02'', ''2024-01-01T00:00:03'']"
  have a: "map_of (detected_drones (init 0)) (PStr ''WIFI_a1b2c3'') = None"
    by (simp add: init_def)
  have b: "hashable (PStr ''WIFI_a1b2c3'')" by simp
  have c: "?ds \<noteq> []" by simp
  have d: "\<forall>d \<in> set ?ds. map_of d ''id'' = Some (PStr ''WIFI_a1b2c3'')"
    by (simp add: wifi_event_def)
  have e: "map (\<lambda>d. map_of d ''timestamp'') ?ds = map (\<lambda>t. Some (PStr t)) ?ts"
    by (simp add: wifi_event_def)
  have f: "sorted ?ts" by simp
  have g: "objects (init 0) = []" by (simp add: init_def)
  show ?thesis
    using a f repeated_detections_of_one_emitter[OF a b c d e] by (simp add: g)
qed

text \<open>
  C5 as the specification words it fails: the code compares no timestamps. When the later
  detection carries the earlier timestamp, \<^verbatim>\<open>last_seen\<close> is the smaller of the two and
  \<^verbatim>\<open>first_seen\<close> the larger, so \<^verbatim>\<open>last_seen\<close> is before \<^verbatim>\<open>first_seen\<close>.
\<close>

theorem last_seen_is_not_the_maximum:
  "map_of (objects (apply_all (init 0)
      [wifi_event ''a1b2c3'' (-45) ''2024-01-01T00:00:05'',
       wifi_event ''a1b2c3'' (-50) ''2024-01-01T00:00:03'']) ! 0) ''last_seen''
     = Some (PStr ''2024-01-01T00:00:03'')
   \<and> map_of (objects (apply_all (init 0)
      [wifi_event ''a1b2c3'' (-45) ''2024-01-01T00:00:05'',
       wifi_event ''a1b2c3'' (-50) ''2024-01-01T00:00:03'']) ! 0) ''first_seen''
     = Some (PStr ''2024-01-01T00:00:05'')
   \<and> Max {''2024-01-01T00:00:05'', ''2024-01-01T00:00:03''} = ''2024-01-01T00:00:05''
   \<and> Min {''2024-01-01T00:00:05'', ''2024-01-01T00:00:03''} = ''2024-01-01T00:00:03''
   \<and> ''2024-01-01T00:00:03'' < ''2024-01-01T00:00:05''"
  by (simp add: run_defs wifi_event_def)

text \<open>
  C1. After two detections of one emitter that the registry did not know, the registry
  holds exactly one track for it, with \<^verbatim>\<open>detection_count\<close> 2 and \<^verbatim>\<open>last_seen\<close> the
  timestamp of the second detection. The second detection changes nothing else: the power,
  the location and every other entry the producer supplied are those of the first
  detection.
\<close>

theorem repeat_keeps_first_payload:
  assumes "map_of (detected_drones s) k = None" and "hashable k"
    and "map_of e1 ''id'' = Some k" and "map_of e1 ''timestamp'' = Some t0"
    and "map_of e2 ''id'' = Some k" and "map_of e2 ''timestamp'' = Some t1"
  shows "length (filter (\<lambda>p. fst p = k) (detected_drones (apply_all s [e1, e2]))) = 1
    \<and> map_of (detected_drones (apply_all s [e1, e2])) k = Some (length (objects s))
    \<and> map_of (objects (apply_all s [e1, e2]) ! length (objects s)) ''detection_count''
        = Some (PInt 2)
    \<and> map_of (objects (apply_all s [e1, e2]) ! length (objects s)) ''last_seen'' = Some t1
    \<and> map_of (objects (apply_all s [e1, e2]) ! length (objects s)) ''power''
        = map_of e1 ''power''
    \<and> map_of (objects (apply_all s [e1, e2]) ! length (objects s)) ''location''
        = map_of e1 ''location''
    \<and> payload (objects (apply_all s [e1, e2]) ! length (objects s)) = payload e1"
proof -
  let ?track = "objects (apply_all s [e1, e2]) ! length (objects s)"
  have e2: "\<forall>d \<in> set [e2]. map_of d ''id'' = Some k" using assms(5) by simp
  have t1: "map (\<lambda>d. map_of d ''timestamp'') [e2] = map Some [t1]" using assms(6) by simp
  note seq = one_track_sequence[OF assms(1) assms(2) assms(3) assms(4) e2 t1]
  have reg: "detected_drones (apply_all s [e1, e2]) = detected_drones s @ [(k, length (objects s))]"
    using seq by simp
  have 1: "length (filter (\<lambda>p. fst p = k) (detected_drones (apply_all s [e1, e2]))) = 1"
    by (simp add: reg filter_absent[OF assms(1)])
  have 2: "map_of (detected_drones (apply_all s [e1, e2])) k = Some (length (objects s))"
    using assms(1) by (simp add: reg map_add_def)
  have 3: "map_of ?track ''detection_count'' = Some (PInt 2)"
    using counters_lookup[of ?track 2 2] seq by simp
  have 4: "map_of ?track ''last_seen'' = Some t1" using seq by simp
  have p: "payload ?track = payload e1" using seq by simp
  have 5: "map_of ?track ''power'' = map_of e1 ''power''"
    using map_of_payload[of "''power''" ?track] map_of_payload[of "''power''" e1]
    by (simp add: p bookkeeping_def)
  have 6: "map_of ?track ''location'' = map_of e1 ''location''"
    using map_of_payload[of "''location''" ?track] map_of_payload[of "''location''" e1]
    by (simp add: p bookkeeping_def)
  from 1 2 3 4 5 6 p show ?thesis by blast
qed

theorem repeat_keeps_first_payload_witness:
  "map_of (detected_drones (init 0)) (PStr ''RF_2400_1000'') = None
   \<and> map_of (objects (apply_all (init 0)
        [rf_scenario (-45) ''2024-01-01T00:00:01'', rf_scenario (-50) ''2024-01-01T00:00:02'']) ! 0)
        ''detection_count'' = Some (PInt 2)
   \<and> map_of (objects (apply_all (init 0)
        [rf_scenario (-45) ''2024-01-01T00:00:01'', rf_scenario (-50) ''2024-01-01T00:00:02'']) ! 0)
        ''last_seen'' = Some (PStr ''2024-01-01T00:00:02'')
   \<and> map_of (objects (apply_all (init 0)
        [rf_scenario (-45) ''2024-01-01T00:00:01'', rf_scenario (-50) ''2024-01-01T00:00:02'']) ! 0)
        ''power'' = Some (PInt (-45))"
proof -
  have a: "map_of (detected_drones (init 0)) (PStr ''RF_2400_1000'') = None"
    by (simp add: init_def)
  have b: "hashable (PStr ''RF_2400_1000'')" by simp
  have g: "objects (init 0) = []" by (simp add: init_def)
  show ?thesis
    using a repeat_keeps_first_payload[OF a b,
        of "rf_scenario (-45) ''2024-01-01T00:00:01''" "PStr ''2024-01-01T00:00:01''"
           "rf_scenario (-50) ''2024-01-01T00:00:02''" "PStr ''2024-01-01T00:00:02''"]
    by (simp add: g rf_scenario_def)
qed

text \<open>
  C1 as the specification words it fails: in its scenario (power -45, then power -50 for
  the same emitter) the track's power is not -50.
\<close>

theorem power_stays_at_first_reading:
  "detected_drones (apply_all (init 0)
      [rf_scenario (-45) ''2024-01-01T00:00:01'', rf_scenario (-50) ''2024-01-01T00:00:02''])
     = [(PStr ''RF_2400_1000'', 0)]
   \<and> map_of (objects (apply_all (init 0)
        [rf_scenario (-45) ''2024-01-01T00:00:01'', rf_scenario (-50) ''2024-01-01T00:00:02'']) ! 0)
        ''power'' \<noteq> Some (PInt (-50))"
  by (simp add: run_defs rf_scenario_def)

section \<open>The exported documents\<close>




section \<open>A run is its consumed detections applied\<close>

lemma reframe_simps:
  "objects (reframe s r q u) = objects s"
  "detected_drones (reframe s r q u) = detected_drones s"
  "detection_history (reframe s r q u) = detection_history s"
  "running (reframe s r q u) = r"
  "detection_queue (reframe s r q u) = q"
  "last_update (stats (reframe s r q u)) = u"
  "reframe (reframe s r q u) r' q' u' = reframe s r' q' u'"
  "reframe s (running s) (detection_queue s) (last_update (stats s)) = s"
  by (simp_all add: reframe_def)

lemma apply_detection_reframe:
  "snd (apply_detection (reframe s r q u) d) = reframe (snd (apply_detection s d)) r q u"
  by (auto simp add: apply_detection_def increment_def record_detection_def Let_def reframe_def
      split: sum.splits option.splits)

lemma apply_all_reframe: "apply_all (reframe s r q u) ds = reframe (apply_all s ds) r q u"
  unfolding apply_all_def
  by (induction ds arbitrary: s) (simp_all add: apply_detection_reframe)

lemma apply_all_append: "apply_all s (xs @ ys) = apply_all (apply_all s xs) ys"
  by (simp add: apply_all_def)

lemma step_reframe:
  "step s a = reframe (apply_all s (consumed_step s a))
                (running (step s a)) (detection_queue (step s a)) (last_update (stats (step s a)))"
proof (cases a)
  case Consume
  show ?thesis
  proof (cases "running s")
    case False
    then show ?thesis using Consume by (simp add: consumed_step_def apply_all_def reframe_def)
  next
    case True
    show ?thesis
    proof (cases "items (detection_queue s)")
      case Nil
      then show ?thesis using Consume True
        by (simp add: consumed_step_def apply_all_def loop_iteration_def get_def reframe_def)
    next
      case (Cons d rest)
      have l: "loop_iteration s
          = (snd (apply_detection s d))\<lparr>detection_queue := (detection_queue s)\<lparr>items := rest\<rparr>\<rparr>"
        using Cons by (simp add: loop_iteration_def get_def apply_detection_queue)
      have "(snd (apply_detection s d))\<lparr>detection_queue := (detection_queue s)\<lparr>items := rest\<rparr>\<rparr>
          = reframe (snd (apply_detection s d)) (running (snd (apply_detection s d)))
              ((detection_queue s)\<lparr>items := rest\<rparr>)
              (last_update (stats (snd (apply_detection s d))))"
        by (simp add: reframe_def)
      then show ?thesis using Consume True Cons
        by (simp add: consumed_step_def apply_all_def l reframe_simps)
    qed
  qed
next
  case (Put d)
  then show ?thesis
    by (simp add: consumed_step_def apply_all_def enqueue_def put_def reframe_def
        split: option.splits)
qed (simp_all add: consumed_step_def apply_all_def start_def stop_def main_loop_iteration_def
      reframe_def)

lemma exec_reframe:
  "exec s acts = reframe (apply_all s (consumed s acts))
                   (running (exec s acts)) (detection_queue (exec s acts))
                   (last_update (stats (exec s acts)))"
proof (induction acts arbitrary: s)
  case Nil
  then show ?case by (simp add: exec_def apply_all_def reframe_simps)
next
  case (Cons a acts)
  let ?R = "running (exec s (a # acts))"
  let ?Q = "detection_queue (exec s (a # acts))"
  let ?U = "last_update (stats (exec s (a # acts)))"
  have "exec s (a # acts) = reframe (apply_all (step s a) (consumed (step s a) acts)) ?R ?Q ?U"
    using Cons.IH[of "step s a"] by (simp only: exec_Cons)
  also have "apply_all (step s a) (consumed (step s a) acts)
      = reframe (apply_all s (consumed s (a # acts)))
          (running (step s a)) (detection_queue (step s a)) (last_update (stats (step s a)))"
    by (subst step_reframe) (simp add: apply_all_reframe apply_all_append)
  finally show ?case by (simp only: reframe_simps)
qed

section \<open>The counters count the accepted detections\<close>

lemma distinct_snd_key:
  "distinct (map snd al) \<Longrightarrow> (k, t) \<in> set al \<Longrightarrow> (k', t) \<in> set al \<Longrightarrow> k = k'"
  by (induction al) (auto simp add: rev_image_eqI)

lemma detections_of_snoc:
  "detections_of k (ds @ [d])
     = detections_of k ds + (if well_formed d \<and> map_of d ''id'' = Some k then 1 else 0)"
  by (simp add: detections_of_def)

lemma counted_apply:
  assumes "wf s" "counted s ds"
  shows "counted (snd (apply_detection s d)) (ds @ [d])"
proof (cases "well_formed d")
  case False
  obtain e where "apply_detection s d = (Some e, s)" using apply_malformed[OF False] by blast
  then show ?thesis using assms(2) False by (simp add: counted_def detections_of_snoc)
next
  case True
  then obtain k0 ts where d: "map_of d ''id'' = Some k0" "hashable k0" "map_of d ''timestamp'' = Some ts"
    by (auto simp add: well_formed_def split: option.splits)
  have bound: "\<And>k t. (k, t) \<in> set (detected_drones s) \<Longrightarrow> t < length (objects s)"
    using assms(1) by (auto simp add: wf_def)
  have dk: "distinct (map fst (detected_drones s))" using assms(1) by (simp add: wf_def)
  have ds: "distinct (map snd (detected_drones s))" using assms(2) by (simp add: counted_def)
  have cnt: "\<And>k t. (k, t) \<in> set (detected_drones s) \<Longrightarrow>
      counters (objects s ! t) = Some (int (detections_of k ds), int (detections_of k ds))"
    using assms(2) by (auto simp add: counted_def)
  have zero: "\<And>k. map_of (detected_drones s) k = None \<Longrightarrow> detections_of k ds = 0"
    using assms(2) by (simp add: counted_def)
  show ?thesis
  proof (cases "map_of (detected_drones s) k0")
    case None
    have fresh: "length (objects s) \<notin> snd ` set (detected_drones s)"
      using bound by force
    have k0: "k0 \<notin> fst ` set (detected_drones s)"
      using None by (simp add: map_of_eq_None_iff)
    have k0': "\<And>b. (k0, b) \<notin> set (detected_drones s)"
      using k0 by force
    show ?thesis
      unfolding apply_new[OF d(1,2) None d(3)] counted_def
      using ds fresh k0 k0' True d(1) zero[OF None]
      by (auto simp add: update_absent[OF None] nth_append bound cnt counters_new
          detections_of_snoc map_add_def zero split: option.splits)
  next
    case (Some t0)
    then have kt: "(k0, t0) \<in> set (detected_drones s)" by (rule map_of_SomeD)
    note t0 = bound[OF kt]
    note c0 = cnt[OF kt]
    have other: "\<And>k t. (k, t) \<in> set (detected_drones s) \<Longrightarrow> k \<noteq> k0 \<Longrightarrow> t \<noteq> t0"
      using distinct_snd_key[OF ds _ kt] by blast
    have same: "\<And>t. (k0, t) \<in> set (detected_drones s) \<Longrightarrow> t = t0"
      using eq_key_imp_eq_value[OF dk _ kt] by blast
    let ?X = "setitem (setitem (setitem (objects s ! t0) ''last_seen'' ts) ''duration''
                 (PInt (int (detections_of k0 ds) + 1))) ''detection_count''
                 (PInt (int (detections_of k0 ds) + 1))"
    have reg: "detected_drones (snd (apply_detection s d)) = detected_drones s"
      and obj: "objects (snd (apply_detection s d)) = (objects s)[t0 := ?X] @ [d]"
      unfolding apply_repeat[OF d(1,2) Some d(3) t0 c0] by simp_all
    have 2: "counters (objects (snd (apply_detection s d)) ! t)
        = Some (int (detections_of k (ds @ [d])), int (detections_of k (ds @ [d])))"
      if kt': "(k, t) \<in> set (detected_drones s)" for k t
    proof (cases "k = k0")
      case True
      then have "t = t0" using same kt' by simp
      then show ?thesis
        using True t0 \<open>well_formed d\<close> d(1)
        by (simp add: obj nth_append counters_repeat detections_of_snoc)
    next
      case False
      then have "t \<noteq> t0" using other[OF kt'] by simp
      then show ?thesis
        using False bound[OF kt'] cnt[OF kt'] d(1)
        by (simp add: obj nth_append detections_of_snoc)
    qed
    have 3: "detections_of k (ds @ [d]) = 0" if "map_of (detected_drones s) k = None" for k
    proof -
      have "k \<noteq> k0" using that Some by auto
      then show ?thesis using zero[OF that] d(1) by (simp add: detections_of_snoc)
    qed
    show ?thesis
      unfolding counted_def reg using ds 2 3 by auto
  qed
qed

lemma counted_apply_all:
  "wf s \<Longrightarrow> counted s ds0 \<Longrightarrow> counted (apply_all s ds) (ds0 @ ds)"
proof (induction ds arbitrary: s ds0)
  case Nil
  then show ?case by (simp add: apply_all_def)
next
  case (Cons d ds)
  show ?case
    using Cons.IH[OF wf_apply[OF Cons.prems(1)] counted_apply[OF Cons.prems], of d]
    by (simp add: apply_all_Cons)
qed

lemma counted_init: "counted (init now) []"
  by (simp add: counted_def init_def detections_of_def)

lemma counted_from_init: "counted (apply_all (init now) ds) ds"
  using counted_apply_all[OF wf_init counted_init, of now ds] by simp

text \<open>
  C9. In every state the program reaches, every track of the registry has a \<^verbatim>\<open>duration\<close>
  equal to its \<^verbatim>\<open>detection_count\<close>, and both are the number of detections of that
  emitter the consumer has accepted so far in the run, which is at least 1: they are set
  to 1 by the first detection (lines 263 and 264) and go up by one together with every
  further one (lines 258 and 259). So \<^verbatim>\<open>duration\<close> counts detections, not seconds.
\<close>

theorem duration_counts_detections:
  assumes "(k, t) \<in> set (detected_drones (exec (init now) acts))"
  shows "t < length (objects (exec (init now) acts))
    \<and> 1 \<le> detections_of k (consumed (init now) acts)
    \<and> map_of (objects (exec (init now) acts) ! t) ''duration''
        = Some (PInt (int (detections_of k (consumed (init now) acts))))
    \<and> map_of (objects (exec (init now) acts) ! t) ''detection_count''
        = Some (PInt (int (detections_of k (consumed (init now) acts))))"
proof -
  let ?ds = "consumed (init now) acts"
  let ?s = "apply_all (init now) ?ds"
  have obj: "objects (exec (init now) acts) = objects ?s"
    and reg: "detected_drones (exec (init now) acts) = detected_drones ?s"
    by (subst exec_reframe, simp add: reframe_simps)+
  have kt: "(k, t) \<in> set (detected_drones ?s)" using assms by (simp only: reg)
  have t: "t < length (objects (exec (init now) acts))"
    and ok: "track_ok (objects (exec (init now) acts) ! t)"
    using wf_exec[of now acts] assms by (auto simp add: wf_def)
  have c: "counters (objects ?s ! t)
      = Some (int (detections_of k ?ds), int (detections_of k ?ds))"
    using counted_from_init[of now ?ds] kt by (auto simp add: counted_def)
  have "1 \<le> detections_of k ?ds"
    using ok c by (simp add: track_ok_def obj)
  with t counters_lookup[OF c] show ?thesis by (simp add: obj)
qed

theorem duration_counts_detections_witness:
  "(PStr ''WIFI_a1b2c3'', 0) \<in> set (detected_drones (exec (init 0)
       [Start, Put (wifi_event ''a1b2c3'' (-45) ''2024-01-01T00:00:03''), Consume,
        Put (wifi_event ''a1b2c3'' (-50) ''2024-01-01T00:00:04''), Tick 10, Consume]))
   \<and> detections_of (PStr ''WIFI_a1b2c3'') (consumed (init 0)
       [Start, Put (wifi_event ''a1b2c3'' (-45) ''2024-01-01T00:00:03''), Consume,
        Put (wifi_event ''a1b2c3'' (-50) ''2024-01-01T00:00:04''), Tick 10, Consume]) = 2
   \<and> map_of (objects (exec (init 0)
       [Start, Put (wifi_event ''a1b2c3'' (-45) ''2024-01-01T00:00:03''), Consume,
        Put (wifi_event ''a1b2c3'' (-50) ''2024-01-01T00:00:04''), Tick 10, Consume]) ! 0)
        ''duration'' = Some (PInt 2)
   \<and> map_of (objects (exec (init 0)
       [Start, Put (wifi_event ''a1b2c3'' (-45) ''2024-01-01T00:00:03''), Consume,
        Put (wifi_event ''a1b2c3'' (-50) ''2024-01-01T00:00:04''), Tick 10, Consume]) ! 0)
        ''detection_count'' = Some (PInt 2)"
proof -
  let ?acts = "[Start, Put (wifi_event ''a1b2c3'' (-45) ''2024-01-01T00:00:03''), Consume,
        Put (wifi_event ''a1b2c3'' (-50) ''2024-01-01T00:00:04''), Tick 10, Consume]"
  have m: "(PStr ''WIFI_a1b2c3'', 0) \<in> set (detected_drones (exec (init 0) ?acts))"
    by (simp add: run_defs wifi_event_def)
  have n: "detections_of (PStr ''WIFI_a1b2c3'') (consumed (init 0) ?acts) = 2"
    by (simp add: detections_of_def consumed_step_def well_formed_def run_defs wifi_event_def)
  note th = duration_counts_detections[OF m]
  have d: "map_of (objects (exec (init 0) ?acts) ! 0) ''duration''
      = Some (PInt (int (detections_of (PStr ''WIFI_a1b2c3'') (consumed (init 0) ?acts))))"
    using th by blast
  have c: "map_of (objects (exec (init 0) ?acts) ! 0) ''detection_count''
      = Some (PInt (int (detections_of (PStr ''WIFI_a1b2c3'') (consumed (init 0) ?acts))))"
    using th by blast
  have d2: "map_of (objects (exec (init 0) ?acts) ! 0) ''duration'' = Some (PInt 2)"
    using d by (simp only: n) simp
  have c2: "map_of (objects (exec (init 0) ?acts) ! 0) ''detection_count'' = Some (PInt 2)"
    using c by (simp only: n) simp
  from m n d2 c2 show ?thesis by blast
qed

section \<open>Tracks and the periodic pass\<close>

lemma exec_ticks_registry: "detected_drones (exec s (map Tick ticks)) = detected_drones s"
  by (induction ticks arbitrary: s) (simp_all add: exec_def main_loop_iteration_def)

text \<open>
  C3 as the specification words it fails: a track created by one detection and never
  detected again is still in the registry after any number of periodic passes of the main
  loop, at whatever times they run; and with a stream of detections with pairwise different
  identifiers the registry grows beyond every bound, whatever passes follow.
\<close>

theorem idle_tracks_survive_every_tick:
  "\<not> (\<exists>ticks. PStr ''RF_2400_1000'' \<notin> fst ` set (detected_drones (exec (init 0)
          ([Start, Put (rf_scenario (-45) ''2024-01-01T00:00:01''), Consume] @ map Tick ticks))))
   \<and> \<not> (\<exists>B ticks. \<forall>n. length (detected_drones (exec (init 0)
          ((Start # map Put (map rf_event [0..<n]) @ replicate n Consume) @ map Tick ticks)))
        \<le> B)"
proof -
  have a: "detected_drones (exec (init 0)
      [Start, Put (rf_scenario (-45) ''2024-01-01T00:00:01''), Consume])
        = [(PStr ''RF_2400_1000'', 0)]"
    by (simp add: run_defs rf_scenario_def)
  have 1: "\<not> (\<exists>ticks. PStr ''RF_2400_1000'' \<notin> fst ` set (detected_drones (exec (init 0)
          ([Start, Put (rf_scenario (-45) ''2024-01-01T00:00:01''), Consume] @ map Tick ticks))))"
    by (simp only: exec_append exec_ticks_registry a) simp
  have 2: "\<not> (\<exists>B ticks. \<forall>n. length (detected_drones (exec (init 0)
          ((Start # map Put (map rf_event [0..<n]) @ replicate n Consume) @ map Tick ticks)))
        \<le> B)"
  proof
    assume "\<exists>B ticks. \<forall>n. length (detected_drones (exec (init 0)
          ((Start # map Put (map rf_event [0..<n]) @ replicate n Consume) @ map Tick ticks)))
        \<le> B"
    then obtain B ticks where B: "\<forall>n. length (detected_drones (exec (init 0)
          ((Start # map Put (map rf_event [0..<n]) @ replicate n Consume) @ map Tick ticks)))
        \<le> B" by blast
    have n: "\<And>n. exec (init 0) (Start # map Put (map rf_event [0..<n]) @ replicate n Consume)
        = apply_all (start (init 0)) (map rf_event [0..<n])"
      using run_events[of 0 "map rf_event [0..<n]" for n] by simp
    have "length (detected_drones (exec (init 0)
          ((Start # map Put (map rf_event [0..<Suc B]) @ replicate (Suc B) Consume) @ map Tick ticks)))
        \<le> B"
      using B by blast
    then have "Suc B \<le> B"
      by (simp only: exec_append exec_ticks_registry n registry_after_rf_events)
    then show False by simp
  qed
  from 1 2 show ?thesis by (rule conjI)
qed

section \<open>The exported documents\<close>

text \<open>
  The statistics handed to \<^verbatim>\<open>jsonify\<close> hold the set \<^verbatim>\<open>unique_drones\<close>, so the handler of
  \<^verbatim>\<open>/api/export\<close> raises TypeError in every state. \<^verbatim>\<open>save_data\<close> turns the set into a list
  first (line 642).
\<close>

lemma api_export_raises: "api_export s now = Inl TypeError"
  by (simp add: api_export_def jsonify_def stats_types_def)




end
